theory Spec2Isabelle
  imports Main "HOL-Library.Word" "HOL-Library.Multiset"
begin

unbundle bit_operations_syntax

section \<open>G1 concurrent marking: the structures of \<^verbatim>\<open>g1ConcurrentMark.hpp\<close>\<close>

subsection \<open>\<^verbatim>\<open>G1TaskQueueEntry\<close>: an oop or a continuation address in one word\<close>

text \<open>
  The class holds a single \<^verbatim>\<open>void* _holder\<close>. It is read through \<^verbatim>\<open>uintptr_t\<close>, here the
  64-bit word of an LP64 build, on which a \<^verbatim>\<open>HeapWord\<close> is eight bytes.
\<close>

type_synonym uintptr_t = "64 word"

datatype G1TaskQueueEntry = G1TaskQueueEntry (holder: uintptr_t)

text \<open>A failed \<^verbatim>\<open>assert\<close> of the class stops the VM (debug builds); it is the error of the model.\<close>

datatype assertion = Assert_holder_not_NULL | Assert_not_array_slice | Assert_is_array_slice

definition ArraySliceBit :: uintptr_t where
  "ArraySliceBit = 1"

definition NULL :: uintptr_t where
  "NULL = 0"

definition BytesPerWord :: nat where
  "BytesPerWord = 8"

text \<open>A \<^verbatim>\<open>HeapWord*\<close> is word aligned: a multiple of \<^const>\<open>BytesPerWord\<close>.\<close>

definition is_word_aligned :: "uintptr_t \<Rightarrow> bool" where
  "is_word_aligned a = (a AND (of_nat BytesPerWord - 1) = 0)"

text \<open>\<^verbatim>\<open>G1TaskQueueEntry()\<close>: the default constructor stores \<^verbatim>\<open>NULL\<close>.\<close>

definition default_entry :: G1TaskQueueEntry where
  "default_entry = G1TaskQueueEntry NULL"

text \<open>\<^verbatim>\<open>G1TaskQueueEntry(HeapWord* addr) : _holder((void*)((uintptr_t)addr | ArraySliceBit))\<close>\<close>

definition from_slice :: "uintptr_t \<Rightarrow> G1TaskQueueEntry" where
  "from_slice what = G1TaskQueueEntry (what OR ArraySliceBit)"

text \<open>\<^verbatim>\<open>G1TaskQueueEntry(oop obj) : _holder(obj)\<close>, asserting \<^verbatim>\<open>_holder != NULL\<close>.\<close>

definition from_oop :: "uintptr_t \<Rightarrow> assertion + G1TaskQueueEntry" where
  "from_oop obj = (if obj = NULL then Inl Assert_holder_not_NULL else Inr (G1TaskQueueEntry obj))"

definition is_array_slice :: "G1TaskQueueEntry \<Rightarrow> bool" where
  "is_array_slice e = (holder e AND ArraySliceBit \<noteq> 0)"

definition is_oop :: "G1TaskQueueEntry \<Rightarrow> bool" where
  "is_oop e = (\<not> is_array_slice e)"

definition is_null :: "G1TaskQueueEntry \<Rightarrow> bool" where
  "is_null e = (holder e = NULL)"

text \<open>\<^verbatim>\<open>obj()\<close> asserts \<^verbatim>\<open>!is_array_slice()\<close> and returns the holder as it is.\<close>

definition obj :: "G1TaskQueueEntry \<Rightarrow> assertion + uintptr_t" where
  "obj e = (if is_array_slice e then Inl Assert_not_array_slice else Inr (holder e))"

text \<open>\<^verbatim>\<open>slice()\<close> asserts \<^verbatim>\<open>is_array_slice()\<close> and returns \<^verbatim>\<open>_holder & ~ArraySliceBit\<close>.\<close>

definition slice_entry :: "G1TaskQueueEntry \<Rightarrow> assertion + uintptr_t" where
  "slice_entry e = (if is_array_slice e then Inr (holder e AND NOT ArraySliceBit) else Inl Assert_is_array_slice)"

subsection \<open>\<^verbatim>\<open>G1CMMarkStack\<close>: the overflow mark stack\<close>

text \<open>\<^verbatim>\<open>static const size_t EntriesPerChunk = 1024 - 1 /* One reference for the next pointer */;\<close>\<close>

definition EntriesPerChunk :: nat where
  "EntriesPerChunk = 1024 - 1"

text \<open>
  The reserved memory at \<^verbatim>\<open>_base\<close> is an array of \<^verbatim>\<open>TaskQueueEntryChunk\<close>. A chunk pointer is
  the index of the chunk in that array, \<^verbatim>\<open>chunk_data\<close> gives the \<^verbatim>\<open>data\<close> array of every
  chunk, and a linked list is the sequence of the chunks reached from its head through
  \<^verbatim>\<open>next\<close>, head first (\<^verbatim>\<open>NULL\<close> is the empty list). The padding fields hold no data.
\<close>

record G1CMMarkStack =
  max_chunk_capacity :: nat
  chunk_capacity :: nat
  free_list :: "nat list"
  chunk_list :: "nat list"
  chunks_in_chunk_list :: nat
  hwm :: nat
  chunk_data :: "nat \<Rightarrow> G1TaskQueueEntry list"

text \<open>\<^verbatim>\<open>bool is_empty() const { return _chunk_list == NULL; }\<close>\<close>

definition is_empty :: "G1CMMarkStack \<Rightarrow> bool" where
  "is_empty s = (chunk_list s = [])"

definition capacity :: "G1CMMarkStack \<Rightarrow> nat" where
  "capacity s = chunk_capacity s"

text \<open>
  Modelled from the spec: the bodies of \<^verbatim>\<open>allocate_new_chunk\<close>, of the four list operations,
  of \<^verbatim>\<open>par_push_chunk\<close> and of \<^verbatim>\<open>par_pop_chunk\<close> are not in the header, which declares and
  documents them. The spec, section 4.2: \<^verbatim>\<open>par_push_chunk\<close> "acquires a chunk from the
  free_list, else bumps hwm if below chunk_capacity, else returns false (overflow). Copies buf
  into chunk data. CAS the chunk onto chunk_list head; increment chunks_in_chunk_list";
  \<^verbatim>\<open>par_pop_chunk\<close> does "CAS-remove head of chunk_list; if none, return false. Copy chunk data
  into buf; release chunk onto free_list; decrement chunks_in_chunk_list". Each operation on
  a list head is atomic, and a chunk is on no list while its data is copied, so no other
  thread reaches it: a push and a pop are each one step on the state.
\<close>

text \<open>"Allocate a new chunk from the reserved memory, using the high water mark. Returns
  NULL if out of memory."\<close>

definition allocate_new_chunk :: "G1CMMarkStack \<Rightarrow> nat option \<times> G1CMMarkStack" where
  "allocate_new_chunk s =
     (if chunk_capacity s \<le> hwm s then (None, s)
      else (Some (hwm s), s\<lparr>hwm := hwm s + 1\<rparr>))"

definition add_chunk_to_chunk_list :: "nat \<Rightarrow> G1CMMarkStack \<Rightarrow> G1CMMarkStack" where
  "add_chunk_to_chunk_list elem s =
     s\<lparr>chunk_list := elem # chunk_list s, chunks_in_chunk_list := chunks_in_chunk_list s + 1\<rparr>"

definition add_chunk_to_free_list :: "nat \<Rightarrow> G1CMMarkStack \<Rightarrow> G1CMMarkStack" where
  "add_chunk_to_free_list elem s = s\<lparr>free_list := elem # free_list s\<rparr>"

text \<open>"Atomically remove and return a chunk from the given list. Returns NULL if the list
  is empty."\<close>

definition remove_chunk_from_chunk_list :: "G1CMMarkStack \<Rightarrow> nat option \<times> G1CMMarkStack" where
  "remove_chunk_from_chunk_list s =
     (case chunk_list s of
        [] \<Rightarrow> (None, s)
      | c # cs \<Rightarrow> (Some c, s\<lparr>chunk_list := cs, chunks_in_chunk_list := chunks_in_chunk_list s - 1\<rparr>))"

definition remove_chunk_from_free_list :: "G1CMMarkStack \<Rightarrow> nat option \<times> G1CMMarkStack" where
  "remove_chunk_from_free_list s =
     (case free_list s of
        [] \<Rightarrow> (None, s)
      | c # cs \<Rightarrow> (Some c, s\<lparr>free_list := cs\<rparr>))"

text \<open>
  The copy into the chunk moves the \<^const>\<open>EntriesPerChunk\<close> slots of the caller's array, whatever
  they hold ("If less than EntriesPerChunk elements are to be pushed, the array must be
  terminated with a NULL").
\<close>

definition copy_to_chunk :: "G1TaskQueueEntry list \<Rightarrow> nat \<Rightarrow> G1CMMarkStack \<Rightarrow> G1CMMarkStack" where
  "copy_to_chunk buffer c s = s\<lparr>chunk_data := (chunk_data s)(c := take EntriesPerChunk buffer)\<rparr>"

definition par_push_chunk :: "G1TaskQueueEntry list \<Rightarrow> G1CMMarkStack \<Rightarrow> bool \<times> G1CMMarkStack" where
  "par_push_chunk buffer s =
     (case remove_chunk_from_free_list s of
        (Some c, s1) \<Rightarrow> (True, add_chunk_to_chunk_list c (copy_to_chunk buffer c s1))
      | (None, s1) \<Rightarrow>
          (case allocate_new_chunk s1 of
             (None, s2) \<Rightarrow> (False, s2)
           | (Some c, s2) \<Rightarrow> (True, add_chunk_to_chunk_list c (copy_to_chunk buffer c s2))))"

text \<open>The buffer filled by a pop is the second component; \<^verbatim>\<open>None\<close> is the result \<^verbatim>\<open>false\<close>.\<close>

definition par_pop_chunk :: "G1CMMarkStack \<Rightarrow> G1TaskQueueEntry list option \<times> G1CMMarkStack" where
  "par_pop_chunk s =
     (case remove_chunk_from_chunk_list s of
        (None, s1) \<Rightarrow> (None, s1)
      | (Some c, s1) \<Rightarrow> (Some (chunk_data s1 c), add_chunk_to_free_list c s1))"

text \<open>
  The entries a buffer holds: "Not completely filled chunks have a NULL element as a
  terminating element", so they are the slots before the first \<^verbatim>\<open>NULL\<close>.
\<close>

definition entries_of :: "G1TaskQueueEntry list \<Rightarrow> G1TaskQueueEntry list" where
  "entries_of buffer = takeWhile (\<lambda>e. \<not> is_null e) buffer"

text \<open>
  The memory management of the class comment: "a high water-mark indicating that all chunks
  at a lower address are valid chunks, and a singly linked free list connecting all empty
  chunks". No chunk is on two lists or twice on one, every chunk on a list lies below the
  high water mark, and the counter is the length of the chunk list (so it is not 0 when a
  chunk is removed).
\<close>

definition mark_stack_wf :: "G1CMMarkStack \<Rightarrow> bool" where
  "mark_stack_wf s =
     (distinct (free_list s @ chunk_list s) \<and>
      list_all (\<lambda>c. c < hwm s) (free_list s @ chunk_list s) \<and>
      chunks_in_chunk_list s = length (chunk_list s))"

text \<open>A run of pushes and pops, by any threads in any order; it returns the buffers popped.\<close>

datatype stack_op = Push "G1TaskQueueEntry list" | Pop

fun run_stack_ops :: "stack_op list \<Rightarrow> G1CMMarkStack \<Rightarrow> G1TaskQueueEntry list list \<times> G1CMMarkStack" where
  "run_stack_ops [] s = ([], s)"
| "run_stack_ops (Push buffer # ops) s = run_stack_ops ops (snd (par_push_chunk buffer s))"
| "run_stack_ops (Pop # ops) s =
     (case par_pop_chunk s of
        (None, s1) \<Rightarrow> run_stack_ops ops s1
      | (Some b, s1) \<Rightarrow> (case run_stack_ops ops s1 of (bs, s2) \<Rightarrow> (b # bs, s2)))"

subsection \<open>\<^verbatim>\<open>HeapRegion\<close> and \<^verbatim>\<open>G1CMRootRegions\<close>\<close>

text \<open>
  A heap region is the address range from \<^verbatim>\<open>bottom\<close> to \<^verbatim>\<open>end\<close>, with its top at the start of
  the marking under construction (NTAMS). Addresses count heap words.
\<close>

record HeapRegion =
  bottom :: nat
  hr_end :: nat
  next_top_at_mark_start :: nat

text \<open>\<^verbatim>\<open>_claimed_survivor_index\<close> is a \<^verbatim>\<open>volatile int\<close>.\<close>

record G1CMRootRegions =
  survivors :: "HeapRegion list"
  scan_in_progress :: bool
  should_abort :: bool
  claimed_survivor_index :: int

text \<open>\<^verbatim>\<open>void abort() { _should_abort = true; }\<close>\<close>

definition abort :: "G1CMRootRegions \<Rightarrow> G1CMRootRegions" where
  "abort s = s\<lparr>should_abort := True\<rparr>"

text \<open>
  Modelled from the spec: the bodies of \<^verbatim>\<open>prepare_for_scan\<close> and \<^verbatim>\<open>claim_next\<close> are not in the
  header. The spec, section 4.4: \<^verbatim>\<open>prepare_for_scan()\<close> "sets scan_in_progress=true,
  claimed_index=0, should_abort=false"; \<^verbatim>\<open>claim_next()\<close>: "if should_abort, returns None;
  otherwise atomically increments claimed_index; returns survivors[old_index] or None".
\<close>

definition prepare_for_scan :: "G1CMRootRegions \<Rightarrow> G1CMRootRegions" where
  "prepare_for_scan s = s\<lparr>scan_in_progress := True, claimed_survivor_index := 0, should_abort := False\<rparr>"

definition claim_next :: "G1CMRootRegions \<Rightarrow> HeapRegion option \<times> G1CMRootRegions" where
  "claim_next s =
     (if should_abort s then (None, s)
      else
        (let claimed_index = claimed_survivor_index s
         in (if 0 \<le> claimed_index \<and> claimed_index < int (length (survivors s))
             then Some (survivors s ! nat claimed_index) else None,
             s\<lparr>claimed_survivor_index := claimed_index + 1\<rparr>)))"

text \<open>The calls of a list of workers, one after the other, with what each was handed.\<close>

fun claim_next_calls :: "nat list \<Rightarrow> G1CMRootRegions \<Rightarrow> (nat \<times> HeapRegion option) list \<times> G1CMRootRegions" where
  "claim_next_calls [] s = ([], s)"
| "claim_next_calls (worker_id # ws) s =
     (case claim_next s of
        (r, s1) \<Rightarrow> (case claim_next_calls ws s1 of (rs, s2) \<Rightarrow> ((worker_id, r) # rs, s2)))"

subsection \<open>\<^verbatim>\<open>G1ConcurrentMark\<close>: the global finger and the global mark stack\<close>

text \<open>
  The fields the operations below use: the regions of the heap \<^verbatim>\<open>_g1h\<close> in address order, the
  heap bounds, the global mark stack, the global finger and the overflow flag.
\<close>

record G1ConcurrentMark =
  g1h :: "HeapRegion list"
  heap_start :: nat
  heap_end :: nat
  global_mark_stack :: G1CMMarkStack
  finger :: nat
  has_overflown :: bool

definition set_has_overflown :: "G1ConcurrentMark \<Rightarrow> G1ConcurrentMark" where
  "set_has_overflown cm = cm\<lparr>has_overflown := True\<rparr>"

definition clear_has_overflown :: "G1ConcurrentMark \<Rightarrow> G1ConcurrentMark" where
  "clear_has_overflown cm = cm\<lparr>has_overflown := False\<rparr>"

text \<open>\<^verbatim>\<open>bool out_of_regions() { return _finger >= _heap_end; }\<close>\<close>

definition out_of_regions :: "G1ConcurrentMark \<Rightarrow> bool" where
  "out_of_regions cm = (heap_end cm \<le> finger cm)"

text \<open>
  \<^verbatim>\<open>if (!_global_mark_stack.par_push_chunk(arr)) { set_has_overflown(); return false; }
  return true;\<close>
\<close>

definition mark_stack_push :: "G1TaskQueueEntry list \<Rightarrow> G1ConcurrentMark \<Rightarrow> bool \<times> G1ConcurrentMark" where
  "mark_stack_push arr cm =
     (case par_push_chunk arr (global_mark_stack cm) of
        (False, ms) \<Rightarrow> (False, set_has_overflown (cm\<lparr>global_mark_stack := ms\<rparr>))
      | (True, ms) \<Rightarrow> (True, cm\<lparr>global_mark_stack := ms\<rparr>))"

definition mark_stack_pop :: "G1ConcurrentMark \<Rightarrow> G1TaskQueueEntry list option \<times> G1ConcurrentMark" where
  "mark_stack_pop cm =
     (case par_pop_chunk (global_mark_stack cm) of (r, ms) \<Rightarrow> (r, cm\<lparr>global_mark_stack := ms\<rparr>))"

text \<open>The region of the heap that covers an address, \<^verbatim>\<open>NULL\<close> when there is none.\<close>

definition heap_region_containing :: "HeapRegion list \<Rightarrow> nat \<Rightarrow> HeapRegion option" where
  "heap_region_containing rs addr = find (\<lambda>r. bottom r \<le> addr \<and> addr < hr_end r) rs"

text \<open>
  Modelled from the spec: the body of \<^verbatim>\<open>G1ConcurrentMark::claim_region\<close> is not in the header,
  which declares it. The spec, section 4.5, sentence by sentence: "atomic fetch-add the finger
  by the size of the region starting at the current finger; if the pre-value \<ge> heap_end, return
  None. Return the region covering the pre-value. The caller must still handle an empty
  region (its bitmap scan simply finds nothing)". The finger is region aligned, so the region
  that starts at it is the region that covers it; where no region does, nothing is added. The
  comment of the declaration has it that the call "might return NULL if the next region is
  empty"; the spec returns the region and leaves the empty case to the caller, and the model
  follows the spec. The update of the finger is atomic, so a call is one step on the state.
\<close>

definition claim_region :: "nat \<Rightarrow> G1ConcurrentMark \<Rightarrow> HeapRegion option \<times> G1ConcurrentMark" where
  "claim_region worker_id cm =
     (let pre_value = finger cm;
          curr_region = heap_region_containing (g1h cm) pre_value;
          cm1 = cm\<lparr>finger := pre_value +
                  (case curr_region of None \<Rightarrow> 0 | Some r \<Rightarrow> hr_end r - bottom r)\<rparr>
      in (if heap_end cm \<le> pre_value then None else curr_region, cm1))"

text \<open>
  The regions of a heap lie one after the other from the heap start to the heap end, none
  of them of size zero, each with its NTAMS inside it.
\<close>

fun regions_from :: "nat \<Rightarrow> HeapRegion list \<Rightarrow> nat \<Rightarrow> bool" where
  "regions_from a [] e = (a = e)"
| "regions_from a (r # rs) e =
     (bottom r = a \<and> a < hr_end r \<and> a \<le> next_top_at_mark_start r \<and>
      next_top_at_mark_start r \<le> hr_end r \<and> regions_from (hr_end r) rs e)"

definition heap_wf :: "G1ConcurrentMark \<Rightarrow> bool" where
  "heap_wf cm = regions_from (heap_start cm) (g1h cm) (heap_end cm)"

text \<open>
  One marking phase, seen from the finger: the calls of \<^verbatim>\<open>claim_region\<close> in the order in which
  their atomic updates take effect, each with the worker that makes it and its result.
\<close>

fun claim_regions :: "nat list \<Rightarrow> G1ConcurrentMark \<Rightarrow> (nat \<times> HeapRegion option) list \<times> G1ConcurrentMark" where
  "claim_regions [] cm = ([], cm)"
| "claim_regions (worker_id # ws) cm =
     (case claim_region worker_id cm of
        (r, cm1) \<Rightarrow> (case claim_regions ws cm1 of (rs, cm2) \<Rightarrow> ((worker_id, r) # rs, cm2)))"

text \<open>The calls of a phase that succeeded with a given region.\<close>

definition claims_of :: "HeapRegion \<Rightarrow> (nat \<times> HeapRegion option) list \<Rightarrow> (nat \<times> HeapRegion option) list" where
  "claims_of R res = filter (\<lambda>c. snd c = Some R) res"

subsection \<open>\<^verbatim>\<open>G1CMTask\<close>: the limits of a marking task\<close>

text \<open>\<^verbatim>\<open>enum PrivateConstants { words_scanned_period = 12*1024, refs_reached_period = 1024,
  init_hash_seed = 17 };\<close>\<close>

definition words_scanned_period :: nat where
  "words_scanned_period = 12 * 1024"

definition refs_reached_period :: nat where
  "refs_reached_period = 1024"

definition init_hash_seed :: int where
  "init_hash_seed = 17"

text \<open>
  The fields of a task that its region and its limits use. The local finger and the region
  limit are \<^verbatim>\<open>NULL\<close>, here 0, when the task scans no region.
\<close>

record G1CMTask =
  next_mark_bitmap :: "nat set"
  curr_region :: "HeapRegion option"
  local_finger :: nat
  region_limit :: nat
  words_scanned :: nat
  words_scanned_limit :: nat
  real_words_scanned_limit :: nat
  refs_reached :: nat
  refs_reached_limit :: nat
  real_refs_reached_limit :: nat

text \<open>
  \<^verbatim>\<open>if (_words_scanned >= _words_scanned_limit || _refs_reached >= _refs_reached_limit) {
  reached_limit(); }\<close>. The body of \<^verbatim>\<open>reached_limit\<close> is not in the header: it is a parameter.
\<close>

definition check_limits :: "(G1CMTask \<Rightarrow> G1CMTask) \<Rightarrow> G1CMTask \<Rightarrow> G1CMTask" where
  "check_limits reached_limit t =
     (if words_scanned_limit t \<le> words_scanned t \<or> refs_reached_limit t \<le> refs_reached t
      then reached_limit t else t)"

text \<open>
  Modelled from the spec: the bodies of \<^verbatim>\<open>G1CMTask::clear_region_fields\<close> and \<^verbatim>\<open>reset\<close>, with
  which a task starts a phase, are not in the header. The spec, sections 4.6 and 4.7:
  "Phase-start reset: zero counters, bind bitmap, clear region fields"; "words_scanned_limit
  starts at 12 \<times> 1024 words; refs_reached_limit at 1024". The header: each real limit is the
  "Initial value" of its limit, "what it was before it was decreased".
\<close>

definition clear_region_fields :: "G1CMTask \<Rightarrow> G1CMTask" where
  "clear_region_fields t = t\<lparr>curr_region := None, local_finger := 0, region_limit := 0\<rparr>"

definition reset :: "nat set \<Rightarrow> G1CMTask \<Rightarrow> G1CMTask" where
  "reset bitmap t =
     (clear_region_fields t)
       \<lparr>next_mark_bitmap := bitmap,
        words_scanned := 0,
        refs_reached := 0,
        real_words_scanned_limit := words_scanned_period,
        words_scanned_limit := words_scanned_period,
        real_refs_reached_limit := refs_reached_period,
        refs_reached_limit := refs_reached_period\<rparr>"

section \<open>The stack as a list of buffers, and small instances\<close>

text \<open>The buffers on the chunk list, the last one pushed first.\<close>

definition contents :: "G1CMMarkStack \<Rightarrow> G1TaskQueueEntry list list" where
  "contents s = map (chunk_data s) (chunk_list s)"

text \<open>
  A mark stack of capacity one that can grow to four chunks: fresh, with its only chunk
  on the chunk list, and with that chunk back on the free list.
\<close>

definition stack_of_one_chunk :: G1CMMarkStack where
  "stack_of_one_chunk =
     \<lparr>max_chunk_capacity = 4, chunk_capacity = 1, free_list = [], chunk_list = [],
      chunks_in_chunk_list = 0, hwm = 0, chunk_data = (\<lambda>c. [])\<rparr>"

definition full_stack_of_one_chunk :: "G1TaskQueueEntry list \<Rightarrow> G1CMMarkStack" where
  "full_stack_of_one_chunk buffer =
     \<lparr>max_chunk_capacity = 4, chunk_capacity = 1, free_list = [], chunk_list = [0],
      chunks_in_chunk_list = 1, hwm = 1, chunk_data = (\<lambda>c. [])(0 := buffer)\<rparr>"

definition drained_stack_of_one_chunk :: "G1TaskQueueEntry list \<Rightarrow> G1CMMarkStack" where
  "drained_stack_of_one_chunk buffer =
     \<lparr>max_chunk_capacity = 4, chunk_capacity = 1, free_list = [0], chunk_list = [],
      chunks_in_chunk_list = 0, hwm = 1, chunk_data = (\<lambda>c. [])(0 := buffer)\<rparr>"

text \<open>
  A heap of two regions of eight words with the finger at its start. The second region has
  its top at mark start at its bottom: no object of it is below that top, it is empty for the
  marking.
\<close>

definition nonempty_region :: HeapRegion where
  "nonempty_region = \<lparr>bottom = 0, hr_end = 8, next_top_at_mark_start = 4\<rparr>"

definition empty_region :: HeapRegion where
  "empty_region = \<lparr>bottom = 8, hr_end = 16, next_top_at_mark_start = 8\<rparr>"

definition marking_of_two_regions :: G1ConcurrentMark where
  "marking_of_two_regions =
     \<lparr>g1h = [nonempty_region, empty_region], heap_start = 0, heap_end = 16,
      global_mark_stack = stack_of_one_chunk, finger = 0, has_overflown = False\<rparr>"

text \<open>Root regions with the two regions as survivors, ready for a scan.\<close>

definition two_survivors :: G1CMRootRegions where
  "two_survivors =
     \<lparr>survivors = [nonempty_region, empty_region], scan_in_progress = True,
      should_abort = False, claimed_survivor_index = 0\<rparr>"

text \<open>A task after its reset, and a stand-in for \<^verbatim>\<open>reached_limit\<close> that restarts the counters.\<close>

definition fresh_task :: G1CMTask where
  "fresh_task =
     \<lparr>next_mark_bitmap = {}, curr_region = None, local_finger = 0, region_limit = 0,
      words_scanned = 0, words_scanned_limit = 12288, real_words_scanned_limit = 12288,
      refs_reached = 0, refs_reached_limit = 1024, real_refs_reached_limit = 1024\<rparr>"

definition restart_counters :: "G1CMTask \<Rightarrow> G1CMTask" where
  "restart_counters t = t\<lparr>words_scanned := 0, refs_reached := 0\<rparr>"

section \<open>Properties\<close>

subsection \<open>The tagged entry\<close>

lemma low_bit_of_aligned: "is_word_aligned a \<Longrightarrow> a AND ArraySliceBit = 0"
proof -
  assume "is_word_aligned a"
  then have a: "a AND 7 = 0"
    by (simp add: is_word_aligned_def BytesPerWord_def)
  have "a AND 1 = (a AND 7) AND 1"
    by (simp add: and.assoc)
  with a show ?thesis by (simp add: ArraySliceBit_def)
qed

lemma clear_after_set: "(a :: uintptr_t) AND ArraySliceBit = 0 \<Longrightarrow> (a OR ArraySliceBit) AND NOT ArraySliceBit = a"
proof -
  assume a: "a AND ArraySliceBit = 0"
  have "(a OR ArraySliceBit) AND NOT ArraySliceBit = a AND NOT ArraySliceBit"
    by (simp add: bit.conj_disj_distrib2)
  also have "\<dots> = (a AND NOT ArraySliceBit) OR (a AND ArraySliceBit)"
    using a by simp
  also have "\<dots> = a AND (NOT ArraySliceBit OR ArraySliceBit)"
    by (simp only: bit.conj_disj_distrib)
  also have "\<dots> = a" by simp
  finally show ?thesis .
qed

lemma slice_bit_set: "(a OR ArraySliceBit) AND ArraySliceBit = ArraySliceBit"
  by (simp add: bit.conj_disj_distrib2)

lemma is_array_slice_from_slice: "is_array_slice (from_slice a)"
  by (simp add: is_array_slice_def from_slice_def slice_bit_set) (simp add: ArraySliceBit_def)

lemma slice_from_slice: "is_word_aligned a \<Longrightarrow> slice_entry (from_slice a) = Inr a"
  using is_array_slice_from_slice [of a] clear_after_set [OF low_bit_of_aligned [of a]]
  by (simp add: slice_entry_def) (simp add: from_slice_def)

lemma not_null_from_slice: "\<not> is_null (from_slice a)"
  by (simp add: is_null_def from_slice_def NULL_def ArraySliceBit_def or_eq_0_iff)

text \<open>
  Claim C6. An entry is one word whose low bit tells its kind. For every word-aligned address
  \<open>a\<close>, the entry of \<^verbatim>\<open>from_slice(a)\<close> is an array slice and \<^verbatim>\<open>slice()\<close> gives \<open>a\<close> back. For every
  object reference \<open>p\<close>, a word-aligned address other than \<^verbatim>\<open>NULL\<close>, \<^verbatim>\<open>from_oop(p)\<close> passes its
  assertion, the entry is an oop with low bit 0 and \<^verbatim>\<open>obj()\<close> gives \<open>p\<close> back. The default
  entry is the all-zero word, and \<^verbatim>\<open>is_null()\<close> holds of it and of no other entry; a slice and
  an oop entry are never null.
\<close>

theorem task_queue_entry_tagging:
  "(is_word_aligned a \<longrightarrow>
      is_array_slice (from_slice a) \<and> \<not> is_oop (from_slice a) \<and> slice_entry (from_slice a) = Inr a \<and>
      \<not> is_null (from_slice a)) \<and>
   (is_word_aligned p \<and> p \<noteq> NULL \<longrightarrow>
      (\<exists>e. from_oop p = Inr e \<and> is_oop e \<and> \<not> is_array_slice e \<and> holder e AND 1 = 0 \<and>
           obj e = Inr p \<and> \<not> is_null e)) \<and>
   holder default_entry = 0 \<and> is_null default_entry \<and> (is_null e \<longleftrightarrow> e = default_entry)"
proof (intro conjI impI)
  assume p: "is_word_aligned p \<and> p \<noteq> NULL"
  then have "p AND ArraySliceBit = 0" by (simp add: low_bit_of_aligned)
  with p show "\<exists>e. from_oop p = Inr e \<and> is_oop e \<and> \<not> is_array_slice e \<and> holder e AND 1 = 0 \<and>
           obj e = Inr p \<and> \<not> is_null e"
    by (simp add: from_oop_def is_oop_def is_array_slice_def obj_def is_null_def) (simp add: ArraySliceBit_def)
next
  show "is_null e \<longleftrightarrow> e = default_entry"
    by (cases e) (simp add: is_null_def default_entry_def)
next
  show "is_null default_entry" by (simp add: default_entry_def is_null_def)
next
  show "holder default_entry = 0" by (simp add: default_entry_def NULL_def)
qed (simp_all add: is_array_slice_from_slice slice_from_slice not_null_from_slice is_oop_def)

theorem task_queue_entry_tagging_witness:
  "is_word_aligned 4096 \<and> is_array_slice (from_slice 4096) \<and> slice_entry (from_slice 4096) = Inr 4096 \<and>
   holder (from_slice 4096) = 4097 \<and>
   is_word_aligned 8192 \<and> 8192 \<noteq> NULL \<and> from_oop 8192 = Inr (G1TaskQueueEntry 8192) \<and>
   is_oop (G1TaskQueueEntry 8192) \<and> obj (G1TaskQueueEntry 8192) = Inr 8192"
proof -
  have a: "is_word_aligned 4096" and p: "is_word_aligned 8192 \<and> 8192 \<noteq> NULL"
    by (simp_all add: is_word_aligned_def BytesPerWord_def NULL_def)
  have h: "holder (from_slice 4096) = 4097" and f: "from_oop 8192 = Inr (G1TaskQueueEntry 8192)"
    by (simp_all add: from_slice_def from_oop_def ArraySliceBit_def NULL_def)
  from a p f h show ?thesis
    using task_queue_entry_tagging [of 4096 8192 default_entry] by auto
qed

text \<open>
  Claim C7. \<^verbatim>\<open>EntriesPerChunk\<close> is 1023: the 1024 words of a chunk less the one of its header,
  the \<^verbatim>\<open>next\<close> pointer.
\<close>

theorem EntriesPerChunk_value: "EntriesPerChunk = 1023 \<and> EntriesPerChunk + 1 = 1024"
  by (simp add: EntriesPerChunk_def)

subsection \<open>The push onto the global mark stack\<close>

text \<open>
  Claim C3. When \<^verbatim>\<open>par_push_chunk\<close> takes the buffer, \<^verbatim>\<open>mark_stack_push\<close> returns true and leaves
  \<^verbatim>\<open>has_overflown\<close> as it was; when \<^verbatim>\<open>par_push_chunk\<close> rejects it, \<^verbatim>\<open>mark_stack_push\<close> sets
  \<^verbatim>\<open>has_overflown\<close> and returns false. The result is the boolean of \<^verbatim>\<open>par_push_chunk\<close> and
  nothing else: an overflow reaches the caller as \<^verbatim>\<open>false\<close> and as the flag only, and beyond
  the flag and the stack nothing of the marking state changes.
\<close>

theorem mark_stack_push_overflow:
  "(par_push_chunk arr (global_mark_stack cm) = (True, ms) \<longrightarrow>
      mark_stack_push arr cm = (True, cm\<lparr>global_mark_stack := ms\<rparr>) \<and>
      has_overflown (snd (mark_stack_push arr cm)) = has_overflown cm) \<and>
   (par_push_chunk arr (global_mark_stack cm) = (False, ms) \<longrightarrow>
      mark_stack_push arr cm = (False, cm\<lparr>global_mark_stack := ms, has_overflown := True\<rparr>) \<and>
      has_overflown (snd (mark_stack_push arr cm))) \<and>
   fst (mark_stack_push arr cm) = fst (par_push_chunk arr (global_mark_stack cm))"
proof (intro conjI impI)
  assume f: "par_push_chunk arr (global_mark_stack cm) = (False, ms)"
  then show "mark_stack_push arr cm = (False, cm\<lparr>global_mark_stack := ms, has_overflown := True\<rparr>)"
    by (simp add: mark_stack_push_def set_has_overflown_def)
  then show "has_overflown (snd (mark_stack_push arr cm))" by simp
next
  show "fst (mark_stack_push arr cm) = fst (par_push_chunk arr (global_mark_stack cm))"
    by (cases "par_push_chunk arr (global_mark_stack cm)")
      (auto simp: mark_stack_push_def split: bool.splits)
qed (simp_all add: mark_stack_push_def)

lemma push_on_stack_of_one_chunk:
  "length buffer \<le> 1023 \<Longrightarrow>
   par_push_chunk buffer stack_of_one_chunk = (True, full_stack_of_one_chunk buffer)"
  by (simp add: par_push_chunk_def remove_chunk_from_free_list_def allocate_new_chunk_def
      stack_of_one_chunk_def full_stack_of_one_chunk_def add_chunk_to_chunk_list_def
      copy_to_chunk_def EntriesPerChunk_def)

lemma push_on_full_stack:
  "par_push_chunk arr (full_stack_of_one_chunk buffer) = (False, full_stack_of_one_chunk buffer)"
  by (simp add: par_push_chunk_def remove_chunk_from_free_list_def allocate_new_chunk_def
      full_stack_of_one_chunk_def)

lemma pop_from_full_stack:
  "par_pop_chunk (full_stack_of_one_chunk buffer) = (Some buffer, drained_stack_of_one_chunk buffer)"
  by (simp add: par_pop_chunk_def remove_chunk_from_chunk_list_def add_chunk_to_free_list_def
      full_stack_of_one_chunk_def drained_stack_of_one_chunk_def)

theorem mark_stack_push_overflow_witness:
  "par_push_chunk [from_slice 8] (global_mark_stack marking_of_two_regions) =
     (True, full_stack_of_one_chunk [from_slice 8]) \<and>
   mark_stack_push [from_slice 8] marking_of_two_regions =
     (True, marking_of_two_regions\<lparr>global_mark_stack := full_stack_of_one_chunk [from_slice 8]\<rparr>) \<and>
   \<not> has_overflown (snd (mark_stack_push [from_slice 8] marking_of_two_regions)) \<and>
   par_push_chunk [from_slice 16]
     (global_mark_stack
       (marking_of_two_regions\<lparr>global_mark_stack := full_stack_of_one_chunk [from_slice 8]\<rparr>)) =
     (False, full_stack_of_one_chunk [from_slice 8]) \<and>
   mark_stack_push [from_slice 16]
     (marking_of_two_regions\<lparr>global_mark_stack := full_stack_of_one_chunk [from_slice 8]\<rparr>) =
     (False, marking_of_two_regions
        \<lparr>global_mark_stack := full_stack_of_one_chunk [from_slice 8], has_overflown := True\<rparr>)"
proof -
  let ?full = "full_stack_of_one_chunk [from_slice 8]"
  have 1: "par_push_chunk [from_slice 8] (global_mark_stack marking_of_two_regions) = (True, ?full)"
    by (simp add: marking_of_two_regions_def push_on_stack_of_one_chunk)
  have 2: "par_push_chunk [from_slice 16]
      (global_mark_stack (marking_of_two_regions\<lparr>global_mark_stack := ?full\<rparr>)) = (False, ?full)"
    by (simp add: push_on_full_stack)
  have 3: "\<not> has_overflown marking_of_two_regions"
    by (simp add: marking_of_two_regions_def)
  from 1 2 3 show ?thesis
    using mark_stack_push_overflow [of "[from_slice 8]" marking_of_two_regions ?full]
      mark_stack_push_overflow [of "[from_slice 16]"
        "marking_of_two_regions\<lparr>global_mark_stack := ?full\<rparr>" ?full]
    by simp
qed

subsection \<open>The round trip of a chunk\<close>

lemma par_push_chunk_overflow: "par_push_chunk arr s = (False, ms) \<Longrightarrow> ms = s"
  by (auto simp: par_push_chunk_def remove_chunk_from_free_list_def allocate_new_chunk_def
      split: list.splits if_splits)

lemma map_fun_upd_other: "c \<notin> set cs \<Longrightarrow> map (f(c := v)) cs = map f cs"
  by (induction cs) auto

lemma par_push_chunk_contents:
  assumes "mark_stack_wf s" and "par_push_chunk buffer s = (True, s1)"
  shows "mark_stack_wf s1 \<and> contents s1 = take EntriesPerChunk buffer # contents s"
proof (cases "free_list s")
  case Nil
  with assms(2) have cap: "hwm s < chunk_capacity s"
    and s1: "s1 = add_chunk_to_chunk_list (hwm s) (copy_to_chunk buffer (hwm s) (s\<lparr>hwm := hwm s + 1\<rparr>))"
    by (auto simp: par_push_chunk_def remove_chunk_from_free_list_def allocate_new_chunk_def
        split: if_splits)
  from assms(1) have lower: "\<forall>c \<in> set (chunk_list s). c < hwm s"
    by (simp add: mark_stack_wf_def list_all_iff)
  then have fresh: "hwm s \<notin> set (chunk_list s)" by auto
  from assms(1) Nil lower fresh have "mark_stack_wf s1"
    by (auto simp: s1 mark_stack_wf_def add_chunk_to_chunk_list_def copy_to_chunk_def list_all_iff)
  moreover from fresh have "contents s1 = take EntriesPerChunk buffer # contents s"
    by (simp add: s1 contents_def add_chunk_to_chunk_list_def copy_to_chunk_def map_fun_upd_other)
  ultimately show ?thesis ..
next
  case (Cons c fl)
  with assms(2) have s1: "s1 = add_chunk_to_chunk_list c (copy_to_chunk buffer c (s\<lparr>free_list := fl\<rparr>))"
    by (simp add: par_push_chunk_def remove_chunk_from_free_list_def)
  from assms(1) Cons have fresh: "c \<notin> set (chunk_list s)"
    by (auto simp: mark_stack_wf_def)
  from assms(1) Cons have "mark_stack_wf s1"
    by (auto simp: s1 mark_stack_wf_def add_chunk_to_chunk_list_def copy_to_chunk_def)
  moreover from fresh have "contents s1 = take EntriesPerChunk buffer # contents s"
    by (simp add: s1 contents_def add_chunk_to_chunk_list_def copy_to_chunk_def map_fun_upd_other)
  ultimately show ?thesis ..
qed

lemma par_pop_chunk_contents:
  assumes "mark_stack_wf s" and "contents s = b # bs"
  shows "\<exists>s1. par_pop_chunk s = (Some b, s1) \<and> mark_stack_wf s1 \<and> contents s1 = bs"
proof -
  from assms(2) obtain c cs where l: "chunk_list s = c # cs" and b: "chunk_data s c = b"
    and bs: "map (chunk_data s) cs = bs"
    by (auto simp: contents_def)
  let ?s1 = "add_chunk_to_free_list c (s\<lparr>chunk_list := cs, chunks_in_chunk_list := chunks_in_chunk_list s - 1\<rparr>)"
  from l b have "par_pop_chunk s = (Some b, ?s1)"
    by (simp add: par_pop_chunk_def remove_chunk_from_chunk_list_def)
  moreover from assms(1) l have "mark_stack_wf ?s1"
    by (auto simp: mark_stack_wf_def add_chunk_to_free_list_def)
  moreover from bs have "contents ?s1 = bs"
    by (simp add: contents_def add_chunk_to_free_list_def)
  ultimately show ?thesis by blast
qed

lemma length_contents: "length (contents s) = length (chunk_list s)"
  by (simp add: contents_def)

lemma chunk_is_popped:
  assumes "mark_stack_wf s" and "contents s = upper @ b # lower"
    and "run_stack_ops ops s = (bufs, s2)" and "length (chunk_list s2) \<le> length lower"
  shows "b \<in> set bufs"
  using assms
proof (induction ops arbitrary: s upper bufs)
  case Nil
  then have "s2 = s" by simp
  with Nil.prems(4) have "length (contents s) \<le> length lower"
    by (simp add: length_contents)
  with Nil.prems(2) show ?case by simp
next
  case (Cons op ops)
  show ?case
  proof (cases op)
    case (Push buffer)
    obtain ok s1 where p: "par_push_chunk buffer s = (ok, s1)"
      by (cases "par_push_chunk buffer s")
    with Cons.prems(3) Push have run: "run_stack_ops ops s1 = (bufs, s2)" by simp
    show ?thesis
    proof (cases ok)
      case True
      with p Cons.prems(1) have wf1: "mark_stack_wf s1"
        and c1: "contents s1 = (take EntriesPerChunk buffer # upper) @ b # lower"
        using par_push_chunk_contents [of s buffer s1] Cons.prems(2) by simp_all
      show ?thesis by (rule Cons.IH [OF wf1 c1 run Cons.prems(4)])
    next
      case False
      with p have "s1 = s" by (simp add: par_push_chunk_overflow)
      with run Cons.prems show ?thesis by (simp add: Cons.IH)
    qed
  next
    case Pop
    show ?thesis
    proof (cases upper)
      case Nil
      with Cons.prems(1,2) obtain s1 where "par_pop_chunk s = (Some b, s1)"
        using par_pop_chunk_contents [of s b lower] by auto
      with Cons.prems(3) Pop show ?thesis
        by (auto split: prod.splits)
    next
      case (Cons a upper')
      with Cons.prems(1,2) obtain s1 where pop: "par_pop_chunk s = (Some a, s1)"
        and wf: "mark_stack_wf s1" and c: "contents s1 = upper' @ b # lower"
        using par_pop_chunk_contents [of s a "upper' @ b # lower"] by auto
      from pop Cons.prems(3) Pop obtain bs where bufs: "bufs = a # bs"
        and run: "run_stack_ops ops s1 = (bs, s2)"
        by (auto split: prod.splits)
      have "b \<in> set bs" by (rule Cons.IH [OF wf c run Cons.prems(4)])
      with bufs show ?thesis by simp
    qed
  qed
qed

lemma takeWhile_take_short:
  "length (takeWhile P xs) \<le> n \<Longrightarrow> takeWhile P (take n xs) = takeWhile P xs"
proof (induction xs arbitrary: n)
  case Nil
  show ?case by simp
next
  case (Cons x xs)
  show ?case
  proof (cases n)
    case 0
    with Cons.prems show ?thesis by (simp split: if_splits)
  next
    case (Suc m)
    with Cons show ?thesis by (simp split: if_splits)
  qed
qed

text \<open>
  Claim C4. Take a well-formed mark stack and a buffer of at most \<^verbatim>\<open>EntriesPerChunk\<close> entries
  that \<^verbatim>\<open>par_push_chunk\<close> accepts. In every run of pushes and pops that follows and brings
  the chunk list back to the height it had before the push, or below, one of the pops
  returns the slots that were pushed: the same entries before the terminating \<^verbatim>\<open>NULL\<close>, in the
  same order and so the same multiset.
\<close>

theorem mark_stack_round_trip:
  assumes "mark_stack_wf s" and "length (entries_of buffer) \<le> EntriesPerChunk"
    and "par_push_chunk buffer s = (True, s1)"
    and "run_stack_ops ops s1 = (bufs, s2)"
    and "length (chunk_list s2) \<le> length (chunk_list s)"
  shows "\<exists>b \<in> set bufs. b = take EntriesPerChunk buffer \<and> entries_of b = entries_of buffer \<and>
           mset (entries_of b) = mset (entries_of buffer)"
proof -
  from assms(1,3) have wf: "mark_stack_wf s1"
    and c: "contents s1 = [] @ take EntriesPerChunk buffer # contents s"
    using par_push_chunk_contents [of s buffer s1] by simp_all
  from assms(5) have "length (chunk_list s2) \<le> length (contents s)"
    by (simp add: length_contents)
  then have "take EntriesPerChunk buffer \<in> set bufs"
    by (rule chunk_is_popped [OF wf c assms(4)])
  moreover from assms(2) have "entries_of (take EntriesPerChunk buffer) = entries_of buffer"
    by (simp add: entries_of_def takeWhile_take_short)
  ultimately show ?thesis by auto
qed

theorem mark_stack_round_trip_witness:
  "mark_stack_wf stack_of_one_chunk \<and>
   length (entries_of [from_slice 8, from_slice 16, default_entry]) \<le> EntriesPerChunk \<and>
   par_push_chunk [from_slice 8, from_slice 16, default_entry] stack_of_one_chunk =
     (True, full_stack_of_one_chunk [from_slice 8, from_slice 16, default_entry]) \<and>
   run_stack_ops [Push [from_slice 24], Pop]
       (full_stack_of_one_chunk [from_slice 8, from_slice 16, default_entry]) =
     ([[from_slice 8, from_slice 16, default_entry]],
      drained_stack_of_one_chunk [from_slice 8, from_slice 16, default_entry]) \<and>
   entries_of [from_slice 8, from_slice 16, default_entry] = [from_slice 8, from_slice 16]"
proof -
  let ?buf = "[from_slice 8, from_slice 16, default_entry]"
  have wf: "mark_stack_wf stack_of_one_chunk"
    by (simp add: mark_stack_wf_def stack_of_one_chunk_def)
  have e: "entries_of ?buf = [from_slice 8, from_slice 16]"
    by (simp add: entries_of_def is_null_def from_slice_def default_entry_def NULL_def
        ArraySliceBit_def)
  then have len: "length (entries_of ?buf) \<le> EntriesPerChunk"
    by (simp add: EntriesPerChunk_def)
  have push: "par_push_chunk ?buf stack_of_one_chunk = (True, full_stack_of_one_chunk ?buf)"
    by (simp add: push_on_stack_of_one_chunk)
  have run: "run_stack_ops [Push [from_slice 24], Pop] (full_stack_of_one_chunk ?buf) =
      ([?buf], drained_stack_of_one_chunk ?buf)"
    by (simp add: push_on_full_stack pop_from_full_stack)
  have "length (chunk_list (drained_stack_of_one_chunk ?buf)) \<le> length (chunk_list stack_of_one_chunk)"
    by (simp add: drained_stack_of_one_chunk_def)
  from mark_stack_round_trip [OF wf len push run this] wf len push run e
  show ?thesis by simp
qed

subsection \<open>The root regions after an abort\<close>

lemma claim_next_aborted: "should_abort s \<Longrightarrow> claim_next s = (None, s)"
  by (simp add: claim_next_def)

lemma claim_next_calls_aborted:
  "should_abort s \<Longrightarrow> claim_next_calls ws s = (map (\<lambda>w. (w, None)) ws, s)"
  by (induction ws) (simp_all add: claim_next_aborted)

text \<open>
  Claim C9. \<^verbatim>\<open>abort()\<close> sets \<^verbatim>\<open>should_abort\<close>, and from then on every call of \<^verbatim>\<open>claim_next()\<close>, by
  whatever workers and however many, returns \<^verbatim>\<open>NULL\<close> and hands out no root region; the
  calls leave the state as \<^verbatim>\<open>abort()\<close> left it.
\<close>

theorem claim_next_after_abort:
  "should_abort (abort s) \<and> claim_next (abort s) = (None, abort s) \<and>
   claim_next_calls ws (abort s) = (map (\<lambda>w. (w, None)) ws, abort s)"
proof -
  have "should_abort (abort s)" by (simp add: abort_def)
  then show ?thesis by (simp add: claim_next_aborted claim_next_calls_aborted)
qed

theorem claim_next_after_abort_witness:
  "fst (claim_next two_survivors) = Some nonempty_region \<and>
   fst (claim_next (abort (snd (claim_next two_survivors)))) = None \<and>
   fst (claim_next_calls [0, 1, 0] (abort (snd (claim_next two_survivors)))) =
     [(0, None), (1, None), (0, None)]"
  using claim_next_after_abort [of "snd (claim_next two_survivors)" "[0, 1, 0]"]
  by (simp add: claim_next_def two_survivors_def)

subsection \<open>Claiming regions\<close>

lemma heap_region_containing_covers:
  "heap_region_containing rs a = Some r \<Longrightarrow> r \<in> set rs \<and> bottom r \<le> a \<and> a < hr_end r"
  by (auto simp: heap_region_containing_def find_Some_iff)

lemma regions_from_le: "regions_from a rs e \<Longrightarrow> a \<le> e"
  by (induction rs arbitrary: a) fastforce+

lemma regions_from_covered:
  "regions_from a rs e \<Longrightarrow> a \<le> x \<Longrightarrow> x < e \<Longrightarrow> \<exists>r. heap_region_containing rs x = Some r"
  by (induction rs arbitrary: a) (auto simp: heap_region_containing_def)

lemma claim_region_out_of_regions: "out_of_regions cm \<Longrightarrow> fst (claim_region w cm) = None"
  by (simp add: claim_region_def out_of_regions_def Let_def)

lemma claim_region_covering:
  "\<not> out_of_regions cm \<Longrightarrow> heap_region_containing (g1h cm) (finger cm) = Some r \<Longrightarrow>
   claim_region w cm = (Some r, cm\<lparr>finger := finger cm + (hr_end r - bottom r)\<rparr>)"
  by (simp add: claim_region_def out_of_regions_def Let_def)

lemma claim_region_heap:
  "claim_region w cm = (r, cm1) \<Longrightarrow>
   g1h cm1 = g1h cm \<and> heap_start cm1 = heap_start cm \<and> heap_end cm1 = heap_end cm \<and>
   finger cm \<le> finger cm1"
  by (auto simp: claim_region_def Let_def)

lemma claim_region_Some:
  assumes "claim_region w cm = (Some R, cm1)"
  shows "R \<in> set (g1h cm) \<and> bottom R \<le> finger cm \<and> finger cm < hr_end R \<and>
         hr_end R \<le> finger cm1 \<and> \<not> out_of_regions cm"
proof -
  from assms have h: "heap_region_containing (g1h cm) (finger cm) = Some R"
    and o: "\<not> out_of_regions cm"
    by (auto simp: claim_region_def out_of_regions_def Let_def split: if_splits)
  with assms have f: "finger cm1 = finger cm + (hr_end R - bottom R)"
    by (auto simp: claim_region_covering)
  from h have c: "R \<in> set (g1h cm) \<and> bottom R \<le> finger cm \<and> finger cm < hr_end R"
    by (rule heap_region_containing_covers)
  with f have "hr_end R \<le> finger cm1" by linarith
  with c o show ?thesis by blast
qed

lemma claim_regions_heap:
  "claim_regions ws cm = (res, cm') \<Longrightarrow> heap_end cm' = heap_end cm \<and> finger cm \<le> finger cm'"
proof (induction ws arbitrary: cm res)
  case Nil
  then show ?case by simp
next
  case (Cons w ws)
  obtain r cm1 where s: "claim_region w cm = (r, cm1)"
    by (cases "claim_region w cm")
  obtain rs where "claim_regions ws cm1 = (rs, cm')"
    using Cons.prems s by (auto split: prod.splits)
  then have "heap_end cm' = heap_end cm1 \<and> finger cm1 \<le> finger cm'" by (rule Cons.IH)
  moreover from s have "heap_end cm1 = heap_end cm \<and> finger cm \<le> finger cm1"
    by (simp add: claim_region_heap)
  ultimately show ?case by simp
qed

lemma claim_regions_finger_mono:
  "claim_regions ws cm = (res, cm') \<Longrightarrow> finger cm \<le> finger cm'"
  by (simp add: claim_regions_heap)

lemma claim_regions_stay_out_of_regions:
  "claim_regions ws cm = (res, cm') \<Longrightarrow> out_of_regions cm \<Longrightarrow> out_of_regions cm'"
  using claim_regions_heap [of ws cm res cm'] by (simp add: out_of_regions_def)

lemma claimed_above_finger:
  "claim_regions ws cm = (res, cm') \<Longrightarrow> (w, Some R) \<in> set res \<Longrightarrow> finger cm < hr_end R"
proof (induction ws arbitrary: cm res)
  case Nil
  then show ?case by simp
next
  case (Cons v ws)
  obtain r cm1 where s: "claim_region v cm = (r, cm1)"
    by (cases "claim_region v cm")
  obtain rs where run: "claim_regions ws cm1 = (rs, cm')" and res: "res = (v, r) # rs"
    using Cons.prems(1) s by (auto split: prod.splits)
  from Cons.prems(2) res consider "r = Some R" | "(w, Some R) \<in> set rs" by auto
  then show ?case
  proof cases
    case 1
    with s show ?thesis by (simp add: claim_region_Some)
  next
    case 2
    with run have "finger cm1 < hr_end R" by (rule Cons.IH)
    moreover from s have "finger cm \<le> finger cm1" by (simp add: claim_region_heap)
    ultimately show ?thesis by simp
  qed
qed

lemma claims_of_Nil_iff: "claims_of R res = [] \<longleftrightarrow> (\<forall>w. (w, Some R) \<notin> set res)"
  by (auto simp: claims_of_def filter_empty_conv)

lemma not_claimed_below_finger:
  "claim_regions ws cm = (res, cm') \<Longrightarrow> hr_end R \<le> finger cm \<Longrightarrow> claims_of R res = []"
  using claimed_above_finger [of ws cm res cm' _ R] by (fastforce simp: claims_of_Nil_iff)

lemma claimed_at_most_once:
  "claim_regions ws cm = (res, cm') \<Longrightarrow> length (claims_of R res) \<le> 1"
proof (induction ws arbitrary: cm res)
  case Nil
  then show ?case by (simp add: claims_of_def)
next
  case (Cons v ws)
  obtain r cm1 where s: "claim_region v cm = (r, cm1)"
    by (cases "claim_region v cm")
  obtain rs where run: "claim_regions ws cm1 = (rs, cm')" and res: "res = (v, r) # rs"
    using Cons.prems(1) s by (auto split: prod.splits)
  show ?case
  proof (cases "r = Some R")
    case True
    with s have "hr_end R \<le> finger cm1" by (simp add: claim_region_Some)
    with run have "claims_of R rs = []" by (rule not_claimed_below_finger)
    with res True show ?thesis by (simp add: claims_of_def)
  next
    case False
    from run have "length (claims_of R rs) \<le> 1" by (rule Cons.IH)
    with res False show ?thesis by (simp add: claims_of_def)
  qed
qed

lemma heap_region_containing_skip:
  "\<forall>r \<in> set pre. hr_end r \<le> a \<Longrightarrow>
   heap_region_containing (pre @ rs) a = heap_region_containing rs a"
  by (induction pre) (auto simp: heap_region_containing_def)

text \<open>
  A call with the finger at the first of the regions not yet passed returns that region and
  moves the finger to its end.
\<close>

lemma claim_next_region:
  assumes "regions_from (finger cm) (r # rs) (heap_end cm)" and "g1h cm = pre @ r # rs"
    and "\<forall>x \<in> set pre. hr_end x \<le> finger cm"
  shows "claim_region w cm = (Some r, cm\<lparr>finger := hr_end r\<rparr>)"
proof -
  from assms(1) have b: "bottom r = finger cm" and lt: "finger cm < hr_end r"
    and rest: "regions_from (hr_end r) rs (heap_end cm)"
    by simp_all
  from lt rest have o: "\<not> out_of_regions cm"
    using regions_from_le [of "hr_end r" rs "heap_end cm"] by (simp add: out_of_regions_def)
  from assms(3) have "heap_region_containing (pre @ r # rs) (finger cm) =
      heap_region_containing (r # rs) (finger cm)"
    by (rule heap_region_containing_skip)
  with b lt assms(2) have "heap_region_containing (g1h cm) (finger cm) = Some r"
    by (simp add: heap_region_containing_def)
  with o have "claim_region w cm = (Some r, cm\<lparr>finger := finger cm + (hr_end r - bottom r)\<rparr>)"
    by (rule claim_region_covering)
  moreover from b lt have "finger cm + (hr_end r - bottom r) = hr_end r" by simp
  ultimately show ?thesis by simp
qed

lemma claimed_when_out_of_regions:
  assumes "regions_from (finger cm) rs (heap_end cm)" and "g1h cm = pre @ rs"
    and "\<forall>r \<in> set pre. hr_end r \<le> finger cm"
    and "claim_regions ws cm = (res, cm')" and "out_of_regions cm'" and "R \<in> set rs"
  shows "length (claims_of R res) = 1"
  using assms
proof (induction ws arbitrary: cm pre rs res)
  case Nil
  then have "cm' = cm" by simp
  with Nil.prems(5) have o: "heap_end cm \<le> finger cm" by (simp add: out_of_regions_def)
  from Nil.prems(6) obtain r rs' where "rs = r # rs'" by (cases rs) auto
  with Nil.prems(1) have "finger cm < hr_end r" and "regions_from (hr_end r) rs' (heap_end cm)"
    by simp_all
  then have "finger cm < heap_end cm"
    using regions_from_le [of "hr_end r" rs' "heap_end cm"] by simp
  with o show ?case by simp
next
  case (Cons v ws)
  from Cons.prems(6) obtain r rs' where rs: "rs = r # rs'" by (cases rs) auto
  with Cons.prems(1) have lt: "finger cm < hr_end r"
    and rest: "regions_from (hr_end r) rs' (heap_end cm)"
    by simp_all
  let ?cm1 = "cm\<lparr>finger := hr_end r\<rparr>"
  from Cons.prems(1,2,3) rs have s: "claim_region v cm = (Some r, ?cm1)"
    by (simp add: claim_next_region)
  obtain res1 where run: "claim_regions ws ?cm1 = (res1, cm')"
    and res: "res = (v, Some r) # res1"
    using Cons.prems(4) s by (auto split: prod.splits)
  show ?case
  proof (cases "R = r")
    case True
    from run have "claims_of r res1 = []"
      by (simp add: not_claimed_below_finger)
    with res True show ?thesis by (simp add: claims_of_def)
  next
    case False
    with Cons.prems(6) rs have R: "R \<in> set rs'" by simp
    from rest have 1: "regions_from (finger ?cm1) rs' (heap_end ?cm1)" by simp
    from Cons.prems(2) rs have 2: "g1h ?cm1 = (pre @ [r]) @ rs'" by simp
    from Cons.prems(3) lt have 3: "\<forall>x \<in> set (pre @ [r]). hr_end x \<le> finger ?cm1"
      by auto
    have "length (claims_of R res1) = 1"
      by (rule Cons.IH [OF 1 2 3 run Cons.prems(5) R])
    with res False show ?thesis by (auto simp: claims_of_def)
  qed
qed

text \<open>As many calls as the heap has regions take the finger to the heap end.\<close>

lemma out_of_regions_after:
  assumes "regions_from (finger cm) rs (heap_end cm)" and "g1h cm = pre @ rs"
    and "\<forall>r \<in> set pre. hr_end r \<le> finger cm"
    and "claim_regions ws cm = (res, cm')" and "length rs \<le> length ws"
  shows "out_of_regions cm'"
  using assms
proof (induction ws arbitrary: cm pre rs res)
  case Nil
  then have "rs = []" and "cm' = cm" by simp_all
  with Nil.prems(1) show ?case by (simp add: out_of_regions_def)
next
  case (Cons v ws)
  show ?case
  proof (cases rs)
    case Nil
    with Cons.prems(1) have "out_of_regions cm" by (simp add: out_of_regions_def)
    with Cons.prems(4) show ?thesis by (rule claim_regions_stay_out_of_regions)
  next
    case (Cons r rs')
    with Cons.prems(1) have lt: "finger cm < hr_end r"
      and rest: "regions_from (hr_end r) rs' (heap_end cm)"
      by simp_all
    let ?cm1 = "cm\<lparr>finger := hr_end r\<rparr>"
    from Cons.prems(1,2,3) Cons have s: "claim_region v cm = (Some r, ?cm1)"
      by (simp add: claim_next_region)
    obtain res1 where run: "claim_regions ws ?cm1 = (res1, cm')"
      using Cons.prems(4) s by (auto split: prod.splits)
    from rest have 1: "regions_from (finger ?cm1) rs' (heap_end ?cm1)" by simp
    from Cons.prems(2) Cons have 2: "g1h ?cm1 = (pre @ [r]) @ rs'" by simp
    from Cons.prems(3) lt have 3: "\<forall>x \<in> set (pre @ [r]). hr_end x \<le> finger ?cm1"
      by auto
    from Cons.prems(5) Cons have 5: "length rs' \<le> length ws" by simp
    show ?thesis by (rule Cons.IH [OF 1 2 3 run 5])
  qed
qed

text \<open>
  Claim C1. \<^verbatim>\<open>claim_region\<close> adds to the global finger, in one atomic step, the size of the region
  at the finger. On a well-formed heap with the finger inside it: when the finger, before the
  call, is at or beyond the heap end, the call returns \<^verbatim>\<open>NULL\<close>; otherwise a region of the heap
  covers the finger, and the call returns that region, whatever it holds, an empty region
  too, and leaves the finger advanced by the size of that region.
\<close>

theorem claim_region_result:
  assumes "heap_wf cm" and "heap_start cm \<le> finger cm"
  shows "(out_of_regions cm \<longrightarrow> fst (claim_region worker_id cm) = None) \<and>
         (\<not> out_of_regions cm \<longrightarrow>
            (\<exists>r \<in> set (g1h cm). bottom r \<le> finger cm \<and> finger cm < hr_end r \<and>
               heap_region_containing (g1h cm) (finger cm) = Some r \<and>
               claim_region worker_id cm =
                 (Some r, cm\<lparr>finger := finger cm + (hr_end r - bottom r)\<rparr>)))"
proof (intro conjI impI)
  assume "out_of_regions cm"
  then show "fst (claim_region worker_id cm) = None" by (rule claim_region_out_of_regions)
next
  assume o: "\<not> out_of_regions cm"
  then have "finger cm < heap_end cm" by (simp add: out_of_regions_def)
  with assms obtain r where h: "heap_region_containing (g1h cm) (finger cm) = Some r"
    using regions_from_covered [of "heap_start cm" "g1h cm" "heap_end cm" "finger cm"]
    by (auto simp: heap_wf_def)
  from o h have "claim_region worker_id cm =
      (Some r, cm\<lparr>finger := finger cm + (hr_end r - bottom r)\<rparr>)"
    by (rule claim_region_covering)
  with h heap_region_containing_covers [OF h]
  show "\<exists>r \<in> set (g1h cm). bottom r \<le> finger cm \<and> finger cm < hr_end r \<and>
               heap_region_containing (g1h cm) (finger cm) = Some r \<and>
               claim_region worker_id cm =
                 (Some r, cm\<lparr>finger := finger cm + (hr_end r - bottom r)\<rparr>)"
    by blast
qed

lemma marking_of_two_regions_wf: "heap_wf marking_of_two_regions"
  by (simp add: heap_wf_def marking_of_two_regions_def nonempty_region_def empty_region_def)

lemma claim_nonempty_region:
  "claim_region w marking_of_two_regions = (Some nonempty_region, marking_of_two_regions\<lparr>finger := 8\<rparr>)"
  by (simp add: claim_region_def heap_region_containing_def Let_def
      marking_of_two_regions_def nonempty_region_def empty_region_def)

lemma claim_empty_region:
  "claim_region w (marking_of_two_regions\<lparr>finger := 8\<rparr>) =
     (Some empty_region, marking_of_two_regions\<lparr>finger := 16\<rparr>)"
  by (simp add: claim_region_def heap_region_containing_def Let_def
      marking_of_two_regions_def nonempty_region_def empty_region_def)

lemma claim_no_region:
  "claim_region w (marking_of_two_regions\<lparr>finger := 16\<rparr>) = (None, marking_of_two_regions\<lparr>finger := 16\<rparr>)"
  by (simp add: claim_region_def heap_region_containing_def Let_def
      marking_of_two_regions_def nonempty_region_def empty_region_def)

theorem claim_region_result_witness:
  "heap_wf marking_of_two_regions \<and> heap_start marking_of_two_regions \<le> finger marking_of_two_regions \<and>
   \<not> out_of_regions marking_of_two_regions \<and>
   claim_region 0 marking_of_two_regions = (Some nonempty_region, marking_of_two_regions\<lparr>finger := 8\<rparr>) \<and>
   next_top_at_mark_start empty_region = bottom empty_region \<and>
   claim_region 1 (marking_of_two_regions\<lparr>finger := 8\<rparr>) =
     (Some empty_region, marking_of_two_regions\<lparr>finger := 16\<rparr>) \<and>
   out_of_regions (marking_of_two_regions\<lparr>finger := 16\<rparr>) \<and>
   fst (claim_region 0 (marking_of_two_regions\<lparr>finger := 16\<rparr>)) = None"
proof -
  have s: "heap_start marking_of_two_regions \<le> finger marking_of_two_regions"
    and o: "\<not> out_of_regions marking_of_two_regions"
    and o2: "out_of_regions (marking_of_two_regions\<lparr>finger := 16\<rparr>)"
    and e: "next_top_at_mark_start empty_region = bottom empty_region"
    by (simp_all add: marking_of_two_regions_def out_of_regions_def empty_region_def)
  have wf2: "heap_wf (marking_of_two_regions\<lparr>finger := 16\<rparr>)"
    and s2: "heap_start (marking_of_two_regions\<lparr>finger := 16\<rparr>) \<le> finger (marking_of_two_regions\<lparr>finger := 16\<rparr>)"
    using marking_of_two_regions_wf by (simp_all add: heap_wf_def marking_of_two_regions_def)
  from claim_region_result [OF wf2 s2, of 0] o2
  have "fst (claim_region 0 (marking_of_two_regions\<lparr>finger := 16\<rparr>)) = None" by blast
  with claim_region_result [OF marking_of_two_regions_wf s, of 0] s o o2 e
  show ?thesis
    using marking_of_two_regions_wf claim_nonempty_region [of 0] claim_empty_region [of 1]
    by blast
qed

text \<open>
  Claim C2. In every sequence of calls of \<^verbatim>\<open>claim_region\<close>, by whatever workers, the finger never
  decreases and no region is the result of more than one call; a call that succeeds with a
  region \<open>R\<close> leaves the finger at or beyond the end of \<open>R\<close>. A phase that starts with the
  finger at the start of a well-formed heap runs out of regions once there were as many calls
  as regions, and when it has run out of regions, every region of the heap was the result of
  exactly one call.
\<close>

theorem claim_region_unique:
  assumes "claim_regions ws cm = (res, cm')"
  shows "finger cm \<le> finger cm' \<and>
         length (claims_of R res) \<le> 1 \<and>
         (\<forall>w c1. claim_region w cm = (Some R, c1) \<longrightarrow> hr_end R \<le> finger c1 \<and> finger cm \<le> finger c1) \<and>
         (heap_wf cm \<and> finger cm = heap_start cm \<and> out_of_regions cm' \<and> R \<in> set (g1h cm) \<longrightarrow>
            length (claims_of R res) = 1) \<and>
         (heap_wf cm \<and> finger cm = heap_start cm \<and> length (g1h cm) \<le> length ws \<longrightarrow>
            out_of_regions cm')"
proof (intro conjI allI impI)
  from assms show "finger cm \<le> finger cm'" by (rule claim_regions_finger_mono)
next
  from assms show "length (claims_of R res) \<le> 1" by (rule claimed_at_most_once)
next
  fix w c1
  assume "claim_region w cm = (Some R, c1)"
  then show "hr_end R \<le> finger c1" and "finger cm \<le> finger c1"
    by (simp_all add: claim_region_Some claim_region_heap)
next
  assume a: "heap_wf cm \<and> finger cm = heap_start cm \<and> out_of_regions cm' \<and> R \<in> set (g1h cm)"
  then have 1: "regions_from (finger cm) (g1h cm) (heap_end cm)" by (simp add: heap_wf_def)
  have 2: "g1h cm = [] @ g1h cm" and 3: "\<forall>r \<in> set []. hr_end r \<le> finger cm" by simp_all
  from a have 5: "out_of_regions cm'" and 6: "R \<in> set (g1h cm)" by simp_all
  show "length (claims_of R res) = 1"
    by (rule claimed_when_out_of_regions [OF 1 2 3 assms 5 6])
next
  assume a: "heap_wf cm \<and> finger cm = heap_start cm \<and> length (g1h cm) \<le> length ws"
  then have 1: "regions_from (finger cm) (g1h cm) (heap_end cm)" by (simp add: heap_wf_def)
  have 2: "g1h cm = [] @ g1h cm" and 3: "\<forall>r \<in> set []. hr_end r \<le> finger cm" by simp_all
  from a have 5: "length (g1h cm) \<le> length ws" by simp
  show "out_of_regions cm'"
    by (rule out_of_regions_after [OF 1 2 3 assms 5])
qed

lemma three_claims:
  "claim_regions [0, 1, 0] marking_of_two_regions =
     ([(0, Some nonempty_region), (1, Some empty_region), (0, None)],
      marking_of_two_regions\<lparr>finger := 16\<rparr>)"
  by (simp add: claim_nonempty_region claim_empty_region claim_no_region)

theorem claim_region_unique_witness:
  "claim_regions [0, 1, 0] marking_of_two_regions =
     ([(0, Some nonempty_region), (1, Some empty_region), (0, None)],
      marking_of_two_regions\<lparr>finger := 16\<rparr>) \<and>
   heap_wf marking_of_two_regions \<and> finger marking_of_two_regions = heap_start marking_of_two_regions \<and>
   length (g1h marking_of_two_regions) \<le> length [0, 1, 0 :: nat] \<and>
   out_of_regions (marking_of_two_regions\<lparr>finger := 16\<rparr>) \<and>
   nonempty_region \<in> set (g1h marking_of_two_regions) \<and>
   empty_region \<in> set (g1h marking_of_two_regions) \<and>
   claim_region 0 marking_of_two_regions = (Some nonempty_region, marking_of_two_regions\<lparr>finger := 8\<rparr>) \<and>
   hr_end nonempty_region \<le> finger (marking_of_two_regions\<lparr>finger := 8\<rparr>) \<and>
   length (claims_of nonempty_region [(0, Some nonempty_region), (1, Some empty_region), (0, None)]) = 1 \<and>
   length (claims_of empty_region [(0, Some nonempty_region), (1, Some empty_region), (0, None)]) = 1"
proof -
  have f: "finger marking_of_two_regions = heap_start marking_of_two_regions"
    and l: "length (g1h marking_of_two_regions) \<le> length [0, 1, 0 :: nat]"
    and m: "nonempty_region \<in> set (g1h marking_of_two_regions)"
    and m2: "empty_region \<in> set (g1h marking_of_two_regions)"
    by (simp_all add: marking_of_two_regions_def)
  note u = claim_region_unique [OF three_claims, of nonempty_region]
  note u2 = claim_region_unique [OF three_claims, of empty_region]
  from u f l marking_of_two_regions_wf
  have o: "out_of_regions (marking_of_two_regions\<lparr>finger := 16\<rparr>)" by blast
  from u f o m marking_of_two_regions_wf
  have 1: "length (claims_of nonempty_region
      [(0, Some nonempty_region), (1, Some empty_region), (0, None)]) = 1"
    by blast
  from u2 f o m2 marking_of_two_regions_wf
  have 2: "length (claims_of empty_region
      [(0, Some nonempty_region), (1, Some empty_region), (0, None)]) = 1"
    by blast
  from u claim_nonempty_region [of 0]
  have 3: "hr_end nonempty_region \<le> finger (marking_of_two_regions\<lparr>finger := 8\<rparr>)"
    by blast
  from 1 2 3 show ?thesis
    using three_claims marking_of_two_regions_wf f l o m m2 claim_nonempty_region [of 0] by blast
qed

subsection \<open>The limits of a task\<close>

text \<open>
  Claim C8. The periods are 12 * 1024 words scanned and 1024 references reached, and they are
  the limits of a task after its reset, with both counters at 0. \<^verbatim>\<open>check_limits\<close> runs
  \<^verbatim>\<open>reached_limit\<close>, whatever it does, when the words scanned have reached their limit or the
  references reached have reached theirs, and does nothing otherwise.
\<close>

theorem task_limits:
  "words_scanned_period = 12 * 1024 \<and> refs_reached_period = 1024 \<and>
   words_scanned_limit (reset bitmap t) = 12 * 1024 \<and>
   refs_reached_limit (reset bitmap t) = 1024 \<and>
   words_scanned (reset bitmap t) = 0 \<and> refs_reached (reset bitmap t) = 0 \<and>
   check_limits reached_limit t =
     (if words_scanned t \<ge> words_scanned_limit t \<or> refs_reached t \<ge> refs_reached_limit t
      then reached_limit t else t)"
  by (simp add: words_scanned_period_def refs_reached_period_def reset_def
      clear_region_fields_def check_limits_def)

lemma fresh_task_fields:
  "words_scanned fresh_task = 0" "words_scanned_limit fresh_task = 12288"
  "refs_reached fresh_task = 0" "refs_reached_limit fresh_task = 1024"
  by (simp_all add: fresh_task_def)

theorem task_limits_witness:
  "words_scanned_limit (reset {} fresh_task) = 12288 \<and>
   refs_reached_limit (reset {} fresh_task) = 1024 \<and>
   check_limits restart_counters fresh_task = fresh_task \<and>
   check_limits restart_counters (fresh_task\<lparr>refs_reached := 1023\<rparr>) =
     fresh_task\<lparr>refs_reached := 1023\<rparr> \<and>
   check_limits restart_counters (fresh_task\<lparr>refs_reached := 1024\<rparr>) =
     restart_counters (fresh_task\<lparr>refs_reached := 1024\<rparr>) \<and>
   check_limits restart_counters (fresh_task\<lparr>words_scanned := 12288\<rparr>) =
     restart_counters (fresh_task\<lparr>words_scanned := 12288\<rparr>)"
proof -
  have r: "words_scanned_limit (reset {} fresh_task) = 12 * 1024 \<and>
      refs_reached_limit (reset {} fresh_task) = 1024"
    using task_limits [of "{}" fresh_task restart_counters] by blast
  have c: "check_limits restart_counters t =
     (if words_scanned t \<ge> words_scanned_limit t \<or> refs_reached t \<ge> refs_reached_limit t
      then restart_counters t else t)" for t
    using task_limits [of "{}" t restart_counters] by blast
  have "check_limits restart_counters fresh_task = fresh_task"
    by (simp add: c fresh_task_fields)
  moreover have "check_limits restart_counters (fresh_task\<lparr>refs_reached := 1023\<rparr>) =
      fresh_task\<lparr>refs_reached := 1023\<rparr>"
    by (simp add: c fresh_task_fields)
  moreover have "check_limits restart_counters (fresh_task\<lparr>refs_reached := 1024\<rparr>) =
      restart_counters (fresh_task\<lparr>refs_reached := 1024\<rparr>)"
    by (simp add: c fresh_task_fields)
  moreover have "check_limits restart_counters (fresh_task\<lparr>words_scanned := 12288\<rparr>) =
      restart_counters (fresh_task\<lparr>words_scanned := 12288\<rparr>)"
    by (simp add: c fresh_task_fields)
  ultimately show ?thesis using r by simp
qed

end
